theory Spec2Isabelle
  imports Main "HOL-Library.Char_ord" "HOL-Library.List_Lexorder"
begin

section \<open>Python strings and regular expressions used by parse\_mdefine.py\<close>

text \<open>
  A Python \<open>str\<close> is modelled as a \<open>string\<close> whose characters are the code points
  0..255. The exceptions the converter can raise are \<open>IndexError\<close> (a subscript out of
  range) and \<open>AttributeError\<close> (\<open>.end()\<close> of a search that found nothing).
\<close>

datatype error = IndexError | AttributeError

definition nl :: char where
  "nl = CHR 0x0A"

definition dq :: char where
  "dq = CHR 0x22"

definition is_word_char :: "char \<Rightarrow> bool" where
  \<comment> \<open>the class \<open>\w\<close> of \<open>re\<close> on \<open>str\<close> patterns: alphanumeric or underscore\<close>
  "is_word_char c = (let n = (of_char c :: nat) in
     (48 \<le> n \<and> n \<le> 57) \<or> (65 \<le> n \<and> n \<le> 90) \<or> n = 95 \<or> (97 \<le> n \<and> n \<le> 122) \<or>
     n = 170 \<or> n = 178 \<or> n = 179 \<or> n = 181 \<or> n = 185 \<or> n = 186 \<or>
     (188 \<le> n \<and> n \<le> 190) \<or> (192 \<le> n \<and> n \<le> 214) \<or> (216 \<le> n \<and> n \<le> 246) \<or>
     248 \<le> n)"

definition is_space_char :: "char \<Rightarrow> bool" where
  \<comment> \<open>\<open>str.isspace\<close>: what \<open>strip()\<close> removes and \<open>split()\<close> splits at\<close>
  "is_space_char c = (let n = (of_char c :: nat) in
     (9 \<le> n \<and> n \<le> 13) \<or> (28 \<le> n \<and> n \<le> 32) \<or> n = 133 \<or> n = 160)"

definition is_digit_char :: "char \<Rightarrow> bool" where
  \<comment> \<open>the class \<open>[0-9]\<close>\<close>
  "is_digit_char c = (let n = (of_char c :: nat) in 48 \<le> n \<and> n \<le> 57)"

fun split_when :: "(char \<Rightarrow> bool) \<Rightarrow> string \<Rightarrow> string list" where
  "split_when P [] = [[]]"
| "split_when P (c # cs) =
     (if P c then [] # split_when P cs
      else (case split_when P cs of [] \<Rightarrow> [[c]] | w # ws \<Rightarrow> (c # w) # ws))"

definition split_on :: "char \<Rightarrow> string \<Rightarrow> string list" where
  \<comment> \<open>\<open>s.split(sep)\<close> for a separator of one character\<close>
  "split_on sep s = split_when (\<lambda>c. c = sep) s"

definition re_split_W :: "string \<Rightarrow> string list" where
  \<comment> \<open>\<open>re.split('\W', s)\<close>\<close>
  "re_split_W s = split_when (\<lambda>c. \<not> is_word_char c) s"

definition split_ws :: "string \<Rightarrow> string list" where
  \<comment> \<open>\<open>s.split()\<close>: the maximal runs of characters that are not whitespace\<close>
  "split_ws s = filter (\<lambda>w. w \<noteq> []) (split_when is_space_char s)"

definition strip :: "string \<Rightarrow> string" where
  "strip s = rev (dropWhile is_space_char (rev (dropWhile is_space_char s)))"

fun join :: "string \<Rightarrow> string list \<Rightarrow> string" where
  "join sep [] = []"
| "join sep [x] = x"
| "join sep (x # y # ys) = x @ sep @ join sep (y # ys)"

fun str_nat :: "nat \<Rightarrow> string" where
  \<comment> \<open>\<open>str(i)\<close> of a natural number\<close>
  "str_nat n = (if n < 10 then [char_of (48 + n)]
                else str_nat (n div 10) @ [char_of (48 + n mod 10)])"

text \<open>
  The two call-rewriting loops search for \<open>r'\b' + name + r'\b'\<close>. Every name they are
  given is \<open>min\<close>, \<open>max\<close> or a non-empty run of word characters cut out by
  \<open>re.split('\W', ...)\<close>, so the pattern is the literal name between two word boundaries.
  A boundary lies between two positions when exactly one of the neighbours is a word
  character; outside the string counts as not a word character.
\<close>

definition next_is_word :: "string \<Rightarrow> bool" where
  "next_is_word s = (case s of [] \<Rightarrow> False | c # _ \<Rightarrow> is_word_char c)"

definition matches_here :: "string \<Rightarrow> bool \<Rightarrow> string \<Rightarrow> bool" where
  "matches_here name prev s =
     (take (length name) s = name \<and> prev \<noteq> next_is_word s \<and>
      (if name = [] then prev else is_word_char (last name))
         \<noteq> next_is_word (drop (length name) s))"

fun search_from :: "string \<Rightarrow> bool \<Rightarrow> nat \<Rightarrow> string \<Rightarrow> (nat \<times> nat) option" where
  "search_from name prev i [] =
     (if matches_here name prev [] then Some (i, i + length name) else None)"
| "search_from name prev i (c # cs) =
     (if matches_here name prev (c # cs) then Some (i, i + length name)
      else search_from name (is_word_char c) (Suc i) cs)"

definition search_word :: "string \<Rightarrow> string \<Rightarrow> (nat \<times> nat) option" where
  \<comment> \<open>\<open>re.search(r'\b'+name+r'\b', s)\<close>: start and end of the leftmost match\<close>
  "search_word name s = search_from name False 0 s"

fun search_paren_end :: "string \<Rightarrow> nat option" where
  \<comment> \<open>\<open>re.search(r'\(', s).end()\<close>, \<open>None\<close> when there is no parenthesis\<close>
  "search_paren_end [] = None"
| "search_paren_end (c # cs) =
     (if c = CHR ''('' then Some 1 else map_option Suc (search_paren_end cs))"

fun sub_energy :: "bool \<Rightarrow> string \<Rightarrow> string" where
  \<comment> \<open>\<open>re.sub(r'\b(e|E)\b', '(6.19920995*(lo+hi)/lo/hi)', s)\<close>\<close>
  "sub_energy prev [] = []"
| "sub_energy prev (c # cs) =
     (if (c = CHR ''e'' \<or> c = CHR ''E'') \<and> \<not> prev \<and> \<not> next_is_word cs
      then ''(6.19920995*(lo+hi)/lo/hi)'' @ sub_energy True cs
      else c # sub_energy (is_word_char c) cs)"

section \<open>The bracket matcher\<close>

text \<open>
  Lines 80-87 and 132-139: \<open>i\<close> starts at 0 with \<open>bracket_level = 1\<close> and runs until the
  level is 0; \<open>func_expr[i]\<close> raises \<open>IndexError\<close> at the end of the string.
\<close>

function bracket_scan :: "string \<Rightarrow> nat \<Rightarrow> nat \<Rightarrow> error + nat" where
  "bracket_scan s i bracket_level =
     (if bracket_level > 0 then
        (if i < length s then
           (if s ! i = CHR ''('' then bracket_scan s (i + 1) (bracket_level + 1)
            else if s ! i = CHR '')'' then bracket_scan s (i + 1) (bracket_level - 1)
            else bracket_scan s (i + 1) bracket_level)
         else Inl IndexError)
      else Inr i)"
  by pat_completeness auto
termination
  by (relation "measure (\<lambda>(s, i, l). length s - i)") auto

declare bracket_scan.simps [simp del]

section \<open>The call-rewriting loop\<close>

text \<open>
  Lines 71-93 (min and max) and 118-146 (sub-functions) are the same loop; they differ
  in the text put in front of the arguments: \<open>name + '(['\<close> in the first,
  \<open>'eval_fun2(&' + name + ',lo,hi, ['\<close> followed by \<open>'1, '\<close> for an additive name in the
  second. That text is the parameter \<open>header\<close>.
\<close>

definition count_open :: "string \<Rightarrow> nat" where
  "count_open s = length (filter (\<lambda>c. c = CHR ''('') s)"

function rewrite_calls :: "string \<Rightarrow> string \<Rightarrow> string \<Rightarrow> string \<Rightarrow> error + string" where
  "rewrite_calls name header new_func_expr func_expr =
     (case search_word name func_expr of
        None \<Rightarrow> Inr (new_func_expr @ func_expr)
      | Some m \<Rightarrow>
          (case search_paren_end (drop (snd m) func_expr) of
             None \<Rightarrow> Inl AttributeError
           | Some p \<Rightarrow>
               (case bracket_scan (drop p (drop (snd m) func_expr)) 0 1 of
                  Inl err \<Rightarrow> Inl err
                | Inr i \<Rightarrow>
                    rewrite_calls name header
                      (new_func_expr @ take (fst m) func_expr @ header)
                      (take (i - 1) (drop p (drop (snd m) func_expr)) @ ''])'' @
                         drop i (drop p (drop (snd m) func_expr))))))"
  by pat_completeness auto
termination
proof (relation "measure (\<lambda>(name, header, new_func_expr, func_expr). count_open func_expr)")
  show "wf (measure (\<lambda>(name, header, new_func_expr, func_expr). count_open func_expr))"
    by simp
next
  fix name header new_func_expr func_expr :: string
  fix m :: "nat \<times> nat" and p i :: nat
  assume found: "search_paren_end (drop (snd m) func_expr) = Some p"
  have split_count: "count_open s = count_open (take n s) + count_open (drop n s)" for n s
  proof -
    have "count_open (take n s @ drop n s) = count_open (take n s) + count_open (drop n s)"
      unfolding count_open_def by (simp only: filter_append length_append)
    then show ?thesis by simp
  qed
  have after_paren: "search_paren_end s = Some q \<Longrightarrow> count_open (drop q s) < count_open s"
    for s q
  proof (induction s arbitrary: q)
    case Nil
    then show ?case by simp
  next
    case (Cons c cs)
    then show ?case by (auto simp: count_open_def split: if_splits)
  qed
  let ?rest = "drop p (drop (snd m) func_expr)"
  have "count_open ?rest < count_open (drop (snd m) func_expr)"
    using found by (rule after_paren)
  moreover have "count_open (drop (snd m) func_expr) \<le> count_open func_expr"
    using split_count[of func_expr "snd m"] by simp
  moreover have "count_open (take (i - 1) ?rest @ ''])'' @ drop i ?rest) \<le> count_open ?rest"
  proof -
    have "drop i ?rest = drop (i - (i - 1)) (drop (i - 1) ?rest)" by simp
    then have "count_open (drop i ?rest) \<le> count_open (drop (i - 1) ?rest)"
      using split_count[of "drop (i - 1) ?rest" "i - (i - 1)"] by simp
    moreover have "count_open (take (i - 1) ?rest @ ''])'' @ drop i ?rest)
                     = count_open (take (i - 1) ?rest) + count_open (drop i ?rest)"
      by (simp add: count_open_def)
    ultimately show ?thesis using split_count[of ?rest "i - 1"] by simp
  qed
  ultimately show "((name, header, new_func_expr @ take (fst m) func_expr @ header,
           take (i - 1) ?rest @ ''])'' @ drop i ?rest),
          (name, header, new_func_expr, func_expr))
         \<in> measure (\<lambda>(name, header, new_func_expr, func_expr). count_open func_expr)"
    by simp
qed

declare rewrite_calls.simps [simp del]

section \<open>The catalogues and the state of a run\<close>

text \<open>
  Lines 27-30. The entry before \<open>smin\<close> is written \<open>' max'\<close> in the source, with a
  leading blank inside the quotes, so the list holds the four-character string and not
  \<open>max\<close>.
\<close>

definition special_functions :: "string list" where
  "special_functions =
   [''exp'', ''sin'', ''cos'', ''tan'', ''sinh'', ''cosh'', ''tanh'', ''sqrt'', ''abs'',
    ''asin'', ''acos'', ''atan'', ''asinh'', ''acosh'', ''atanh'', ''sind'', ''cosd'', ''tand'',
    ''heaviside'', ''boxcar'', ''sign'', ''mean'', ''atan2'', ''erf'', ''erfc'', ''log'', ''log10'',
    ''gamma'', ''min'', '' max'', ''smin'', ''smax'']"

definition intrinsic_additive_functions :: "string list" where
  \<comment> \<open>line 32: the value of \<open>additive_functions\<close> when the module is loaded\<close>
  "intrinsic_additive_functions =
   [
    ''agauss'', ''c6vmekl'', ''eqpair'', ''nei'', ''rnei'', ''vraymond'', ''agnsed'',
    ''carbatm'', ''eqtherm'', ''nlapec'', ''sedov'', ''vrnei'', ''agnslim'', ''cemekl'',
    ''equil'', ''npshock'', ''sirf'', ''vsedov'', ''apec'', ''cevmkl'', ''expdec'', ''nsa'',
    ''slimbh'', ''vtapec'', ''bapec'', ''cflow'', ''ezdiskbb'', ''nsagrav'', ''smaug'',
    ''vvapec'', ''bbody'', ''compLS'', ''gadem'', ''nsatmos'', ''snapec'', ''vvgnei'',
    ''bbodyrad'', ''compPS'', ''gaussian'', ''nsmax'', ''srcut'', ''vvnei'', ''bexrav'',
    ''compST'', ''gnei'', ''nsmaxg'', ''sresc'', ''vvnpshock'', ''bexriv'', ''compTT'',
    ''grad'', ''nsx'', ''ssa'', ''vvpshock'', ''bkn2pow'', ''compbb'', ''grbcomp'', ''nteea'',
    ''step'', ''vvrnei'', ''bknpower'', ''compmag'', ''grbjet'', ''nthComp'', ''tapec'',
    ''vvsedov'', ''bmc'', ''comptb'', ''grbm'', ''optxagn'', ''vapec'', ''vvtapec'', ''bremss'',
    ''compth'', ''hatm'', ''optxagnf'', ''vbremss'', ''vvwdem'', ''brnei'', ''cph'', ''jet'',
    ''pegpwrlw'', ''vcph'', ''vwdem'', ''btapec'', ''cplinear'', ''kerrbb'', ''pexmon'',
    ''vequil'', ''wdem'', ''bvapec'', ''cutoffpl'', ''kerrd'', ''pexrav'', ''vgadem'',
    ''zagauss'', ''bvrnei'', ''disk'', ''kerrdisk'', ''pexriv'', ''vgnei'', ''zbbody'',
    ''bvtapec'', ''diskbb'', ''kyrline'', ''plcabs'', ''vmcflow'', ''zbknpower'', ''bvvapec'',
    ''diskir'', ''laor'', ''posm'', ''vmeka'', ''zbremss'', ''bvvrnei'', ''diskline'',
    ''laor2'', ''powerlaw'', ''vmekal'', ''zcutoffpl'', ''bvvtapec'', ''diskm'', ''logpar'',
    ''pshock'', ''vnei'', ''zgauss'', ''bwcycl'', ''disko'', ''lorentz'', ''qsosed'',
    ''vnpshock'', ''zkerrbb'', ''c6mekl'', ''diskpbb'', ''meka'', ''raymond'', ''voigt'',
    ''zlogpar'', ''c6pmekl'', ''diskpn'', ''mekal'', ''redge'', ''vpshock'', ''zpowerlw'',
    ''c6pvmkl'', ''eplogpar'', ''mkcflow'', ''refsch'']"

text \<open>
  The module-level list \<open>additive_functions\<close> is mutated by \<open>interpret_line\<close>; the
  output file is opened, written and closed by \<open>convert_mdefine_file\<close>, which also
  prints. These are the fields of the state that the functions pass on.
\<close>

record world =
  additive_functions :: "string list"
  out_open :: bool
  out_text :: string
  stdout :: "string list"

section \<open>The stages of interpret\_line\<close>

text \<open>
  Lines 57, 60, 61, 95 and 96 call \<open>re.sub\<close> and drop what it returns; a Python string
  is immutable, so \<open>func_expr\<close> is the same before and after each of them, and they
  have no counterpart below.
\<close>

definition rewrite_minmax :: "string \<Rightarrow> string \<Rightarrow> error + string" where
  \<comment> \<open>lines 67-93, the body of the loop over \<open>['min','max']\<close>\<close>
  "rewrite_minmax sub_func_name func_expr =
     rewrite_calls sub_func_name (sub_func_name @ ''(['') [] func_expr"

definition multi_arg_rewriter :: "string \<Rightarrow> error + string" where
  \<comment> \<open>lines 66-93\<close>
  "multi_arg_rewriter func_expr =
     (case rewrite_minmax ''min'' func_expr of
        Inl err \<Rightarrow> Inl err
      | Inr func_expr1 \<Rightarrow> rewrite_minmax ''max'' func_expr1)"

definition sub_func_names_of :: "string \<Rightarrow> string list" where
  \<comment> \<open>lines 99-100\<close>
  "sub_func_names_of func_expr =
     filter (\<lambda>n. n \<noteq> [])
       (map (\<lambda>seg. last (re_split_W seg)) (split_on CHR ''('' func_expr))"

fun first_index :: "'a list \<Rightarrow> 'a \<Rightarrow> nat" where
  "first_index [] x = 0"
| "first_index (y # ys) x = (if x = y then 0 else Suc (first_index ys x))"

definition np_unique :: "string list \<Rightarrow> string list \<times> nat list" where
  \<comment> \<open>\<open>np.unique(xs, return_index=True)\<close>: the sorted distinct elements, each with the
      index of its first occurrence\<close>
  "np_unique xs = (let u = sort (remdups xs) in (u, map (first_index xs) u))"

definition np_argsort :: "nat list \<Rightarrow> nat list" where
  "np_argsort inds = map snd (sort_key fst (zip inds [0..<length inds]))"

definition extract_pars :: "string list \<Rightarrow> string \<Rightarrow> string list" where
  \<comment> \<open>lines 103-107\<close>
  "extract_pars sub_func_names func_expr =
     (let words = filter (\<lambda>w. w \<noteq> []) (re_split_W func_expr);
          words = filter (\<lambda>w. \<not> is_digit_char (hd w)) words;
          (pars, inds) = np_unique
            (filter (\<lambda>w. w \<notin> set sub_func_names \<and> w \<noteq> ''e'' \<and> w \<noteq> ''E'') words)
      in map (\<lambda>i. pars ! i) (np_argsort inds))"

definition wrap_header :: "string list \<Rightarrow> string \<Rightarrow> string" where
  \<comment> \<open>lines 122 and 127-128: what is put in front of the arguments of a wrapped call\<close>
  "wrap_header additive sub_func_name =
     ''eval_fun2(&'' @ sub_func_name @ '',lo,hi, ['' @
     (if sub_func_name \<in> set additive then ''1, '' else [])"

fun subfunction_wrapper :: "string list \<Rightarrow> string list \<Rightarrow> string \<Rightarrow> error + string" where
  \<comment> \<open>lines 112-146; the second argument is \<open>np.unique(sub_func_names)\<close>\<close>
  "subfunction_wrapper additive [] func_expr = Inr func_expr"
| "subfunction_wrapper additive (sub_func_name # names) func_expr =
     (if sub_func_name \<notin> set special_functions then
        (case rewrite_calls sub_func_name (wrap_header additive sub_func_name) [] func_expr of
           Inl err \<Rightarrow> Inl err
         | Inr func_expr1 \<Rightarrow> subfunction_wrapper additive names func_expr1)
      else subfunction_wrapper additive names func_expr)"

definition rewrite_expr :: "string list \<Rightarrow> string \<Rightarrow> error + (string list \<times> string)" where
  \<comment> \<open>lines 56-153: the parameters and the expression after energy substitution\<close>
  "rewrite_expr additive func_expr0 =
     (case multi_arg_rewriter func_expr0 of
        Inl err \<Rightarrow> Inl err
      | Inr func_expr \<Rightarrow>
          (let sub_func_names = sub_func_names_of func_expr;
               pars = extract_pars sub_func_names func_expr
           in case subfunction_wrapper additive (sort (remdups sub_func_names)) func_expr of
                Inl err \<Rightarrow> Inl err
              | Inr wrapped \<Rightarrow> Inr (pars, sub_energy False wrapped)))"

definition add_norm :: "string \<Rightarrow> string list \<times> string \<Rightarrow> string list \<times> string" where
  \<comment> \<open>lines 158-160\<close>
  "add_norm mtype pe =
     (if mtype = ''add'' then (''norm'' # fst pe, ''( '' @ snd pe @ '' )*norm'') else pe)"

definition translate :: "string list \<Rightarrow> string \<Rightarrow> string \<Rightarrow> error + (string list \<times> string)" where
  \<comment> \<open>lines 56-160: the parameter list and the expression to return\<close>
  "translate additive mtype func_expr0 =
     (case rewrite_expr additive func_expr0 of
        Inl err \<Rightarrow> Inl err
      | Inr pe \<Rightarrow> Inr (add_norm mtype pe))"

definition wrap_long :: "string \<Rightarrow> string" where
  \<comment> \<open>lines 166-168\<close>
  "wrap_long func_expr =
     (if length func_expr > 72
      then join ('' *'' @ [nl] @ ''        '')
             (split_on CHR ''*''
                (join ('' +'' @ [nl] @ ''        '') (split_on CHR ''+'' func_expr)))
      else func_expr)"

definition declare_variables_of :: "string list \<Rightarrow> string" where
  \<comment> \<open>lines 171-173\<close>
  "declare_variables_of pars =
     (if length (''variable '' @ join '', '' pars) > 72
      then ''variable '' @ join ('', '' @ [nl] @ ''        '') pars
      else ''variable '' @ join '', '' pars)"

definition par_list_of :: "string list \<Rightarrow> string" where
  \<comment> \<open>lines 175-178\<close>
  "par_list_of pars =
     (if length (''['' @ [dq] @ join ([dq] @ '','' @ [dq]) pars @ [dq] @ '']'') > 72
      then ''['' @ [dq] @ join ([dq] @ '','' @ [nl] @ ''        '' @ [dq]) pars @ [dq] @ '']''
      else ''['' @ [dq] @ join ([dq] @ '','' @ [dq]) pars @ [dq] @ '']'')"

definition emit :: "string \<Rightarrow> string list \<Rightarrow> string \<Rightarrow> string" where
  \<comment> \<open>lines 181-187: everything one call writes, in order\<close>
  "emit func_name pars func_expr =
     ''define '' @ func_name @ ''_fit(lo,hi,par)'' @ [nl] @ ''{'' @ [nl] @
     ''    '' @ declare_variables_of pars @ '';'' @ [nl] @
     concat (map (\<lambda>(par, i). ''    '' @ par @ '' = par['' @ str_nat i @ ''];'' @ [nl])
               (zip pars [0..<length pars])) @
     [nl] @ ''    return '' @ func_expr @ '';'' @ [nl] @ ''};'' @ [nl] @ [nl] @
     ''add_slang_function('' @ [dq] @ func_name @ [dq] @ '', '' @ par_list_of pars @
     '');'' @ [nl] @ [nl]"

definition mtype_of :: "string \<Rightarrow> string" where
  \<comment> \<open>lines 46-49\<close>
  "mtype_of line =
     (if length (split_on CHR '':'' line) = 1 then ''add''
      else strip (last (split_on CHR '':'' line)))"

definition func_expr_of :: "string \<Rightarrow> string" where
  \<comment> \<open>line 44\<close>
  "func_expr_of line =
     join '' '' (drop 2 (split_on CHR '' '' (hd (split_on CHR '':'' line))))"

definition interpret_line :: "string \<Rightarrow> world \<Rightarrow> world \<times> (error + unit)" where
  \<comment> \<open>lines 34-187; \<open>line.split(' ')[1]\<close> raises when the line has no blank\<close>
  "interpret_line line w =
     (case split_on CHR '' '' line of
        [] \<Rightarrow> (w, Inl IndexError)
      | [_] \<Rightarrow> (w, Inl IndexError)
      | _ # func_name # _ \<Rightarrow>
          (let func_expr = func_expr_of line;
               mtype = mtype_of line;
               w1 = (if mtype = ''add''
                     then w\<lparr>additive_functions := additive_functions w @ [func_name]\<rparr>
                     else w)
           in case translate (additive_functions w1) mtype func_expr of
                Inl err \<Rightarrow> (w1, Inl err)
              | Inr (pars, func_expr2) \<Rightarrow>
                  (w1\<lparr>out_text := out_text w1 @ emit func_name pars (wrap_long func_expr2)\<rparr>,
                   Inr ())))"

section \<open>convert\_mdefine\_file\<close>

text \<open>
  Lines 189-203. The input is the list of lines that iterating over the input file
  yields, each with its line terminator. An exception raised by \<open>interpret_line\<close> is not
  caught: it leaves the loop and the function, and line 203 is not reached.
\<close>

fun process_lines :: "string list \<Rightarrow> world \<Rightarrow> world \<times> (error + unit)" where
  "process_lines [] w = (w, Inr ())"
| "process_lines (line # rest) w =
     (if length (split_ws line) < 1 then process_lines rest w
      else if hd (split_ws line) = ''#''
        then process_lines rest (w\<lparr>out_text := out_text w @ ''%'' @ line\<rparr>)
      else if hd (split_ws line) = ''mdefine''
        then (case interpret_line line w of
                (w1, Inl err) \<Rightarrow> (w1, Inl err)
              | (w1, Inr _) \<Rightarrow> process_lines rest w1)
      else process_lines rest
             (w\<lparr>stdout := stdout w @ [''Failed to parse line: '' @ [dq] @ line @ [dq]]\<rparr>))"

definition file_header :: string where
  "file_header = [nl] @ ''%%% Automatically translated by parse_mdefine (D. J. K. Buisson) %%%''
                  @ [nl, nl]"

definition convert_mdefine_file :: "string list \<Rightarrow> world \<Rightarrow> world \<times> (error + unit)" where
  "convert_mdefine_file input_lines w =
     (case process_lines input_lines (w\<lparr>out_open := True, out_text := file_header\<rparr>) of
        (w1, Inl err) \<Rightarrow> (w1, Inl err)
      | (w1, Inr _) \<Rightarrow> (w1\<lparr>out_open := False\<rparr>, Inr ()))"

definition initial_world :: world where
  \<comment> \<open>the state when the module has just been loaded\<close>
  "initial_world = \<lparr>additive_functions = intrinsic_additive_functions, out_open = False,
                     out_text = [], stdout = []\<rparr>"

section \<open>Notions used to state the properties\<close>

text \<open>
  A string is balanced when the level, counted up at \<open>(\<close> and down at \<open>)\<close> from 0,
  never falls below 0 and ends at 0.
\<close>

fun balanced_from :: "nat \<Rightarrow> string \<Rightarrow> bool" where
  "balanced_from d [] = (d = 0)"
| "balanced_from d (c # cs) =
     (if c = CHR ''('' then balanced_from (Suc d) cs
      else if c = CHR '')'' then (0 < d \<and> balanced_from (d - 1) cs)
      else balanced_from d cs)"

definition balanced :: "string \<Rightarrow> bool" where
  "balanced s = balanced_from 0 s"

text \<open>
  The bracket scan as a recursion over the text that is still to be read: the number of
  characters read until the level is 0, or \<open>None\<close> when the text ends first.
\<close>

fun scan_rest :: "string \<Rightarrow> nat \<Rightarrow> nat option" where
  "scan_rest s 0 = Some 0"
| "scan_rest [] (Suc l) = None"
| "scan_rest (c # cs) (Suc l) =
     map_option Suc (scan_rest cs
        (if c = CHR ''('' then Suc (Suc l) else if c = CHR '')'' then l else Suc l))"

text \<open>
  An identifier is a non-empty run of word characters: what \<open>re.split('\W', ...)\<close>
  yields as a token.
\<close>

definition is_identifier :: "string \<Rightarrow> bool" where
  "is_identifier name = (name \<noteq> [] \<and> list_all is_word_char name)"

definition no_parens :: "string \<Rightarrow> bool" where
  "no_parens s = (CHR ''('' \<notin> set s \<and> CHR '')'' \<notin> set s)"

text \<open>
  Keeping every token at its first occurrence and dropping the later repeats;
  \<open>dedup_first seen xs\<close> also drops what is in \<open>seen\<close>. The tokens that line 105 hands
  to \<open>np.unique\<close> are \<open>parameter_tokens\<close>.
\<close>

fun dedup_first :: "'a list \<Rightarrow> 'a list \<Rightarrow> 'a list" where
  "dedup_first seen [] = []"
| "dedup_first seen (x # xs) =
     (if x \<in> set seen then dedup_first seen xs else x # dedup_first (x # seen) xs)"

definition parameter_tokens :: "string list \<Rightarrow> string \<Rightarrow> string list" where
  "parameter_tokens names e =
     filter (\<lambda>w. w \<notin> set names \<and> w \<noteq> ''e'' \<and> w \<noteq> ''E'')
       (filter (\<lambda>w. \<not> is_digit_char (hd w)) (filter (\<lambda>w. w \<noteq> []) (re_split_W e)))"

text \<open>
  An expression with balanced parentheses, read as a tree. \<open>Leaf u\<close> is a text without
  parentheses. \<open>Node p w a b\<close> is the text \<open>p\<close>, the word \<open>w\<close> that stands directly before
  an opening parenthesis (empty when there is none), the tree \<open>a\<close> inside the parentheses
  and the tree \<open>b\<close> after them. \<open>w\<close> is what line 99 takes as the name in front of the
  parenthesis.
\<close>

datatype ex = Leaf string | Node string string ex ex

fun render :: "ex \<Rightarrow> string" where
  "render (Leaf u) = u"
| "render (Node p w a b) = p @ w @ CHR ''('' # render a @ CHR '')'' # render b"

definition ends_nonword :: "string \<Rightarrow> bool" where
  "ends_nonword s = (s = [] \<or> \<not> is_word_char (last s))"

fun texts_ok :: "ex \<Rightarrow> bool" where
  "texts_ok (Leaf u) = no_parens u"
| "texts_ok (Node p w a b) =
     (no_parens p \<and> ends_nonword p \<and> list_all is_word_char w \<and> texts_ok a \<and> texts_ok b)"


fun add_front :: "string \<Rightarrow> ex \<Rightarrow> ex" where
  "add_front x (Leaf u) = Leaf (x @ u)"
| "add_front x (Node p w a b) = Node (x @ p) w a b"

fun add_back :: "ex \<Rightarrow> string \<Rightarrow> ex" where
  "add_back (Leaf u) x = Leaf (u @ x)"
| "add_back (Node p w a b) x = Node p w a (add_back b x)"








section \<open>Balanced parentheses and the bracket matcher\<close>

lemma bracket_scan_scan_rest:
  "bracket_scan s i l =
     (case scan_rest (drop i s) l of None \<Rightarrow> Inl IndexError | Some k \<Rightarrow> Inr (i + k))"
proof (induction s i l rule: bracket_scan.induct)
  case (1 s i l)
  show ?case
  proof (cases "l > 0")
    case False
    then show ?thesis by (subst bracket_scan.simps) simp
  next
    case pos: True
    then obtain l' where l: "l = Suc l'" by (cases l) auto
    show ?thesis
    proof (cases "i < length s")
      case False
      then show ?thesis using pos l by (subst bracket_scan.simps) simp
    next
      case True
      then have d: "drop i s = s ! i # drop (Suc i) s"
        by (simp add: Cons_nth_drop_Suc)
      show ?thesis
        using 1[OF pos True] pos True l d
        by (subst bracket_scan.simps) (auto split: option.splits)
    qed
  qed
qed

lemma balanced_after_open:
  "balanced_from d (pre @ CHR ''('' # rest) \<Longrightarrow> \<exists>m. balanced_from (Suc m) rest"
proof (induction pre arbitrary: d)
  case Nil
  then show ?case by auto
next
  case (Cons c pre)
  then show ?case by (auto split: if_splits)
qed

lemma scan_rest_total:
  "balanced_from (l + m) s \<Longrightarrow> 0 < l \<Longrightarrow> \<exists>j. scan_rest s l = Some j"
proof (induction s arbitrary: l m)
  case Nil
  then show ?case by simp
next
  case (Cons c cs)
  from Cons.prems obtain l' where l: "l = Suc l'" by (cases l) auto
  show ?case
  proof (cases "c = CHR ''(''")
    case True
    with Cons.prems l have "balanced_from (Suc (Suc l') + m) cs" by simp
    from Cons.IH[OF this] show ?thesis using True l by auto
  next
    case no: False
    show ?thesis
    proof (cases "c = CHR '')''")
      case True
      show ?thesis
      proof (cases l')
        case 0
        then show ?thesis using True no l by simp
      next
        case (Suc l'')
        with Cons.prems l True no have "balanced_from (l' + m) cs" by simp
        from Cons.IH[OF this] Suc show ?thesis using True no l by auto
      qed
    next
      case False
      with Cons.prems l no have "balanced_from (Suc l' + m) cs" by simp
      from Cons.IH[OF this] show ?thesis using False no l by auto
    qed
  qed
qed

lemma scan_rest_bounds:
  "scan_rest s l = Some j \<Longrightarrow> j \<le> length s \<and> (0 < l \<longrightarrow> 0 < j)"
proof (induction s l arbitrary: j rule: scan_rest.induct)
  case (1 s)
  then show ?case by simp
next
  case (2 l)
  then show ?case by simp
next
  case (3 c cs l)
  then show ?case by (auto split: if_splits)
qed

lemma scan_rest_first_match:
  "scan_rest s l = Some j \<Longrightarrow> 0 < l \<Longrightarrow>
     balanced_from l (take j s) \<and> (\<forall>k<j. \<not> balanced_from l (take k s))"
proof (induction s l arbitrary: j rule: scan_rest.induct)
  case (1 s)
  then show ?case by simp
next
  case (2 l)
  then show ?case by simp
next
  case (3 c cs l)
  let ?l' = "if c = CHR ''('' then Suc (Suc l) else if c = CHR '')'' then l else Suc l"
  from "3.prems" obtain j' where j': "scan_rest cs ?l' = Some j'" and j: "j = Suc j'"
    by auto
  show ?case
  proof (cases "?l' = 0")
    case True
    then have c: "c = CHR '')''" "l = 0" by (auto split: if_splits)
    with j' have "j' = 0" by simp
    with c j show ?thesis by simp
  next
    case False
    then have pos: "0 < ?l'" by simp
    from "3.IH"[OF j' pos]
    have ih: "balanced_from ?l' (take j' cs)" "\<forall>k<j'. \<not> balanced_from ?l' (take k cs)"
      by auto
    have a: "balanced_from (Suc l) (take j (c # cs))"
      using ih(1) j by (auto split: if_splits)
    have b: "\<not> balanced_from (Suc l) (take k (c # cs))" if "k < j" for k
    proof (cases k)
      case 0
      then show ?thesis by simp
    next
      case (Suc k')
      with that j have "k' < j'" by simp
      with ih(2) have "\<not> balanced_from ?l' (take k' cs)" by simp
      then show ?thesis using Suc by (auto split: if_splits)
    qed
    from a b show ?thesis by blast
  qed
qed

text \<open>
  Claim C8. Take an expression whose parentheses are balanced and any opening
  parenthesis in it. The scan of lines 80-87, started on the text just past that
  parenthesis with level 1, returns an index \<open>j\<close> without raising: it reads no
  position beyond the end. The text from the parenthesis through \<open>j\<close> is balanced, and
  none of its shorter non-empty prefixes is.
\<close>

theorem bracket_scan_matches:
  assumes "balanced (pre @ CHR ''('' # rest)"
  shows "\<exists>j. bracket_scan rest 0 1 = Inr j \<and> 0 < j \<and> j \<le> length rest \<and>
             balanced (CHR ''('' # take j rest) \<and>
             (\<forall>k. 0 < k \<and> k \<le> j \<longrightarrow> \<not> balanced (take k (CHR ''('' # take j rest)))"
proof -
  from assms obtain m where "balanced_from (Suc m) rest"
    unfolding balanced_def using balanced_after_open by blast
  then have "balanced_from (1 + m) rest" by simp
  from scan_rest_total[OF this] obtain j where j: "scan_rest rest 1 = Some j" by auto
  from scan_rest_bounds[OF j] have b: "0 < j" "j \<le> length rest" by auto
  from scan_rest_first_match[OF j]
  have f: "balanced_from 1 (take j rest)" "\<forall>k<j. \<not> balanced_from 1 (take k rest)" by auto
  have s: "bracket_scan rest 0 1 = Inr j"
    using j by (simp add: bracket_scan_scan_rest)
  have m: "\<not> balanced (take k (CHR ''('' # take j rest))" if "0 < k" "k \<le> j" for k
  proof -
    from that obtain kp where k: "k = Suc kp" "kp < j" by (cases k) auto
    then have "take k (CHR ''('' # take j rest) = CHR ''('' # take kp rest"
      by (simp add: min_def)
    with f(2) k show ?thesis by (simp add: balanced_def)
  qed
  from s b f(1) m show ?thesis by (auto simp: balanced_def)
qed

theorem bracket_scan_matches_witness:
  "balanced ''f(a(b)c)+d'' \<and> bracket_scan ''a(b)c)+d'' 0 1 = Inr 6 \<and> balanced ''(a(b)c)''"
proof -
  have h: "balanced (''f'' @ CHR ''('' # ''a(b)c)+d'')" by code_simp
  have e: "bracket_scan ''a(b)c)+d'' 0 1 = Inr 6" by code_simp
  from bracket_scan_matches[OF h] e have "balanced (CHR ''('' # take 6 ''a(b)c)+d'')"
    by auto
  then show ?thesis using h e by simp
qed


section \<open>Word search and word splitting\<close>

text \<open>
  The search for an identifier in a text that is cut by a character outside the word
  class, and the splitting of such a text.
\<close>

lemma next_is_word_append:
  "next_is_word (a @ c # b) = (if a = [] then is_word_char c else next_is_word a)"
  by (cases a) (auto simp: next_is_word_def)

lemma matches_here_append_sep:
  assumes "is_identifier name" "\<not> is_word_char c"
  shows "matches_here name prev (a @ c # b) = matches_here name prev a"
proof (cases "length name \<le> length a")
  case True
  with assms(1) have ne: "a \<noteq> []" by (auto simp: is_identifier_def)
  have d: "next_is_word (drop (length name) a @ c # b) = next_is_word (drop (length name) a)"
    using assms(2) by (cases "drop (length name) a") (simp_all add: next_is_word_def)
  show ?thesis
    using True ne d by (simp add: matches_here_def next_is_word_append)
next
  case False
  then have r: "take (length name) a \<noteq> name"
    by (auto dest: arg_cong[where f = length])
  have "take (length name) (a @ c # b) \<noteq> name"
  proof
    assume e: "take (length name) (a @ c # b) = name"
    from False obtain k where k: "length name - length a = Suc k"
      by (cases "length name - length a") auto
    then have "take (length name) (a @ c # b) = a @ c # take k b" by simp
    with e have "name = a @ c # take k b" by simp
    then have "c \<in> set name" by simp
    with assms show False by (auto simp: is_identifier_def list_all_iff)
  qed
  with r show ?thesis by (simp add: matches_here_def)
qed

lemma matches_here_Nil: "is_identifier name \<Longrightarrow> \<not> matches_here name prev []"
  by (auto simp: matches_here_def is_identifier_def)

lemma search_from_append_sep:
  assumes "is_identifier name" "\<not> is_word_char c"
  shows "search_from name prev i (a @ c # b) =
           (case search_from name prev i a of
              Some m \<Rightarrow> Some m
            | None \<Rightarrow> search_from name False (i + length a + 1) b)"
proof (induction a arbitrary: prev i)
  case Nil
  have "matches_here name prev (c # b) = matches_here name prev []"
    using matches_here_append_sep[OF assms, of prev "[]" b] by simp
  then show ?case using assms by (simp add: matches_here_Nil)
next
  case (Cons x a)
  have "matches_here name prev (x # a @ c # b) = matches_here name prev (x # a)"
    using matches_here_append_sep[OF assms, of prev "x # a" b] by simp
  then show ?case using Cons.IH by (simp split: option.splits)
qed

lemma search_from_None_shift:
  "search_from name prev i s = None \<longleftrightarrow> search_from name prev 0 s = None"
proof (induction s arbitrary: prev i)
  case Nil
  then show ?case by simp
next
  case (Cons x s)
  from Cons.IH[of "is_word_char x" "Suc i"] Cons.IH[of "is_word_char x" "Suc 0"]
  show ?case by simp
qed

lemma search_from_at_call:
  assumes "is_identifier name"
  shows "search_from name False i (name @ CHR ''('' # rest) = Some (i, i + length name)"
proof -
  from assms obtain n ns where n: "name = n # ns" by (cases name) (auto simp: is_identifier_def)
  have w: "is_word_char n" "is_word_char (last name)"
    using assms n by (auto simp: is_identifier_def list_all_iff)
  have "matches_here name False (name @ CHR ''('' # rest)"
    using w n by (simp add: matches_here_def next_is_word_def is_word_char_def)
  then show ?thesis using n by simp
qed

lemma search_word_at_call:
  assumes "is_identifier name" "search_word name pre = None"
    "pre = [] \<or> \<not> is_word_char (last pre)"
  shows "search_word name (pre @ name @ CHR ''('' # rest)
           = Some (length pre, length pre + length name)"
proof (cases "pre = []")
  case True
  then show ?thesis using search_from_at_call[OF assms(1)] by (simp add: search_word_def)
next
  case False
  then obtain p c where p: "pre = p @ [c]" by (cases pre rule: rev_cases) auto
  with assms(3) have c: "\<not> is_word_char c" by simp
  from assms(2) p have "search_from name False 0 (p @ c # []) = None"
    by (simp add: search_word_def)
  then have n: "search_from name False 0 p = None"
    by (simp add: search_from_append_sep[OF assms(1) c] split: option.splits)
  have "search_from name False 0 (p @ c # (name @ CHR ''('' # rest))
          = Some (length p + 1, length p + 1 + length name)"
    using n search_from_at_call[OF assms(1)]
    by (simp add: search_from_append_sep[OF assms(1) c])
  then show ?thesis using p by (simp add: search_word_def)
qed

lemma search_word_append_sep_None:
  assumes "is_identifier name" "\<not> is_word_char c"
    "search_word name a = None" "search_word name b = None"
  shows "search_word name (a @ c # b) = None"
  using assms(3,4) search_from_None_shift[of name False "length a + 1" b]
  by (simp add: search_word_def search_from_append_sep[OF assms(1,2)])

lemma search_word_Nil: "is_identifier name \<Longrightarrow> search_word name [] = None"
  by (simp add: search_word_def matches_here_Nil)

lemma search_word_after_call:
  assumes "is_identifier name" "search_word name args = None" "search_word name post = None"
  shows "search_word name (args @ ''])'' @ post) = None"
proof -
  have b: "\<not> is_word_char CHR '']''" "\<not> is_word_char CHR '')''"
    by (simp_all add: is_word_char_def)
  have "search_word name ([] @ CHR '')'' # post) = None"
    by (rule search_word_append_sep_None[OF assms(1) b(2) search_word_Nil[OF assms(1)] assms(3)])
  then have "search_word name (args @ CHR '']'' # (CHR '')'' # post)) = None"
    using search_word_append_sep_None[OF assms(1) b(1) assms(2)] by simp
  then show ?thesis by simp
qed


lemma scan_rest_no_parens:
  "no_parens args \<Longrightarrow> scan_rest (args @ CHR '')'' # post) (Suc 0) = Some (Suc (length args))"
  by (induction args) (auto simp: no_parens_def)

lemma bracket_scan_no_parens:
  "no_parens args \<Longrightarrow>
     bracket_scan (args @ CHR '')'' # post) 0 (Suc 0) = Inr (Suc (length args))"
  by (simp add: bracket_scan_scan_rest scan_rest_no_parens)

lemma rewrite_calls_no_match:
  "search_word name e = None \<Longrightarrow> rewrite_calls name header acc e = Inr (acc @ e)"
  by (subst rewrite_calls.simps) simp

lemma rewrite_calls_single_call:
  assumes id: "is_identifier name"
    and pre: "search_word name pre = None" "pre = [] \<or> \<not> is_word_char (last pre)"
    and args: "no_parens args" "search_word name args = None"
    and post: "search_word name post = None"
  shows "rewrite_calls name header acc (pre @ name @ CHR ''('' # args @ CHR '')'' # post)
           = Inr (acc @ pre @ header @ args @ ''])'' @ post)"
proof -
  let ?e = "pre @ name @ CHR ''('' # args @ CHR '')'' # post"
  have m: "search_word name ?e = Some (length pre, length pre + length name)"
    by (rule search_word_at_call[OF id pre])
  have r: "rewrite_calls name header (acc @ pre @ header) (args @ ''])'' @ post)
             = Inr ((acc @ pre @ header) @ args @ ''])'' @ post)"
    by (rule rewrite_calls_no_match[OF search_word_after_call[OF id args(2) post]])
  show ?thesis
    by (subst rewrite_calls.simps)
       (simp add: m bracket_scan_no_parens[OF args(1)] r[simplified])
qed






section \<open>Parameter extraction\<close>

lemma insort_key_map_commute:
  "insort_key f (g x) (map g xs) = map g (insort_key (\<lambda>y. f (g y)) x xs)"
  by (induction xs) auto

lemma sort_key_map_commute: "sort_key f (map g xs) = map g (sort_key (\<lambda>y. f (g y)) xs)"
  by (induction xs) (auto simp: insort_key_map_commute)

lemma take_by_argsort:
  assumes "length inds = length u"
  shows "map (\<lambda>i. u ! i) (np_argsort inds) = map snd (sort_key fst (zip inds u))"
proof -
  have z: "zip inds u = map (\<lambda>p. (fst p, u ! snd p)) (zip inds [0..<length inds])"
    using assms by (intro nth_equalityI) auto
  have "sort_key fst (zip inds u) =
        map (\<lambda>p. (fst p, u ! snd p)) (sort_key fst (zip inds [0..<length inds]))"
    by (simp add: z sort_key_map_commute)
  then show ?thesis by (simp add: np_argsort_def comp_def)
qed

lemma by_first_index:
  "map snd (sort_key fst (zip (map h u) u)) = sort_key h u"
proof -
  have "zip (map h u) u = map (\<lambda>x. (h x, x)) u"
    by (induction u) auto
  then show ?thesis by (simp add: sort_key_map_commute comp_def)
qed

lemma first_index_append:
  "y \<notin> set pre \<Longrightarrow> first_index (pre @ ys) y = length pre + first_index ys y"
  by (induction pre) auto

lemma first_index_nth: "x \<in> set xs \<Longrightarrow> xs ! first_index xs x = x"
  by (induction xs) auto

lemma first_index_inj: "inj_on (first_index xs) (set xs)"
  by (rule inj_onI) (metis first_index_nth)

lemma set_dedup_first: "set (dedup_first seen xs) = set xs - set seen"
  by (induction xs arbitrary: seen) auto

lemma distinct_dedup_first: "distinct (dedup_first seen xs)"
  by (induction xs arbitrary: seen) (auto simp: set_dedup_first)

lemma sorted_dedup_first:
  "set seen = set pre \<Longrightarrow> sorted (map (first_index (pre @ xs)) (dedup_first seen xs))"
proof (induction xs arbitrary: seen pre)
  case Nil
  then show ?case by simp
next
  case (Cons x xs)
  have split: "pre @ x # xs = (pre @ [x]) @ xs" by simp
  show ?case
  proof (cases "x \<in> set seen")
    case True
    with Cons.prems have "set seen = set (pre @ [x])" by auto
    from Cons.IH[OF this] True show ?thesis by (simp only: split dedup_first.simps if_True)
  next
    case False
    with Cons.prems have s: "set (x # seen) = set (pre @ [x])" by auto
    from Cons.IH[OF s] have ih:
      "sorted (map (first_index (pre @ x # xs)) (dedup_first (x # seen) xs))"
      by (simp only: split)
    have hd: "first_index (pre @ x # xs) x = length pre"
      using False Cons.prems by (simp add: first_index_append)
    have "length pre \<le> first_index (pre @ x # xs) y"
      if "y \<in> set (dedup_first (x # seen) xs)" for y
    proof -
      from that have "y \<notin> set pre" using Cons.prems by (auto simp: set_dedup_first)
      then show ?thesis by (simp add: first_index_append)
    qed
    with ih hd False show ?thesis by auto
  qed
qed

lemma np_order_is_dedup_first:
  "map (\<lambda>i. fst (np_unique xs) ! i) (np_argsort (snd (np_unique xs))) = dedup_first [] xs"
proof -
  let ?u = "sort (remdups xs)"
  let ?h = "first_index xs"
  have "map (\<lambda>i. ?u ! i) (np_argsort (map ?h ?u)) = sort_key ?h ?u"
    by (simp add: take_by_argsort by_first_index)
  moreover have "sort_key ?h ?u = dedup_first [] xs"
  proof (rule map_sorted_distinct_set_unique[where f = ?h])
    show "inj_on ?h (set (sort_key ?h ?u) \<union> set (dedup_first [] xs))"
      using first_index_inj[of xs] by (simp add: set_dedup_first)
    show "sorted (map ?h (sort_key ?h ?u))" by (rule sorted_sort_key)
    show "distinct (map ?h (sort_key ?h ?u))"
      using first_index_inj[of xs] by (simp add: distinct_map)
    show "sorted (map ?h (dedup_first [] xs))"
      using sorted_dedup_first[of "[]" "[]" xs] by simp
    show "distinct (map ?h (dedup_first [] xs))"
      using first_index_inj[of xs]
      by (simp add: distinct_map distinct_dedup_first set_dedup_first)
    show "set (sort_key ?h ?u) = set (dedup_first [] xs)"
      by (simp add: set_dedup_first)
  qed
  ultimately show ?thesis by (simp add: np_unique_def Let_def)
qed

lemma extract_pars_dedup:
  "extract_pars names e = dedup_first [] (parameter_tokens names e)"
  unfolding extract_pars_def parameter_tokens_def Let_def
  by (simp add: case_prod_beta np_order_is_dedup_first)

text \<open>
  Claim C6, amended. The parameters are the tokens that are not numbers, not \<open>e\<close> or
  \<open>E\<close> and not among the sub-function names, each kept at its first occurrence: the
  sequence has no duplicates and is in order of first appearance. On the expression
  \<open>a*par1 + par2*par1\<close> followed by its line terminator the sequence is \<open>a\<close>, \<open>par1\<close>,
  \<open>par2\<close>, with \<open>norm\<close> in front for an additive model.
\<close>

theorem extract_pars_first_appearance:
  "extract_pars names e = dedup_first [] (parameter_tokens names e) \<and>
   distinct (extract_pars names e) \<and>
   translate intrinsic_additive_functions ''mul'' (''a*par1 + par2*par1'' @ [nl]) =
     Inr ([''a'', ''par1'', ''par2''], ''a*par1 + par2*par1'' @ [nl]) \<and>
   translate intrinsic_additive_functions ''add'' (''a*par1 + par2*par1'' @ [nl]) =
     Inr ([''norm'', ''a'', ''par1'', ''par2''], ''( a*par1 + par2*par1'' @ [nl] @ '' )*norm'')"
proof -
  have a: "extract_pars names e = dedup_first [] (parameter_tokens names e)"
    by (rule extract_pars_dedup)
  have b: "distinct (extract_pars names e)"
    by (simp add: a distinct_dedup_first)
  have c: "translate intrinsic_additive_functions ''mul'' (''a*par1 + par2*par1'' @ [nl]) =
     Inr ([''a'', ''par1'', ''par2''], ''a*par1 + par2*par1'' @ [nl])"
    by code_simp
  have d: "translate intrinsic_additive_functions ''add'' (''a*par1 + par2*par1'' @ [nl]) =
     Inr ([''norm'', ''a'', ''par1'', ''par2''], ''( a*par1 + par2*par1'' @ [nl] @ '' )*norm'')"
    by code_simp
  from a b c d show ?thesis by blast
qed

theorem extract_pars_first_appearance_witness:
  "extract_pars [''f''] ''f(b)+a*b+2*a'' = [''b'', ''a'']"
proof -
  have "dedup_first [] (parameter_tokens [''f''] ''f(b)+a*b+2*a'') = [''b'', ''a'']"
    by code_simp
  with extract_pars_first_appearance[of "[''f'']" "''f(b)+a*b+2*a''"] show ?thesis
    by simp
qed

text \<open>
  Claim C6 as stated: the sequence for \<open>a*par1 + par2*par1\<close> is not \<open>par1\<close>, \<open>par2\<close>.
  With the line terminator \<open>a\<close> is a parameter as well; without it the last word
  \<open>par1\<close> is taken for a sub-function name (line 99) and dropped.
\<close>

theorem extract_pars_example_differs:
  "extract_pars (sub_func_names_of (''a*par1 + par2*par1'' @ [nl])) (''a*par1 + par2*par1'' @ [nl])
     = [''a'', ''par1'', ''par2''] \<and>
   extract_pars (sub_func_names_of ''a*par1 + par2*par1'') ''a*par1 + par2*par1''
     = [''a'', ''par2'']"
  by code_simp

section \<open>The min/max pass run again on its own output\<close>

lemma search_word_in_call:
  assumes "is_identifier name" "search_word name f = None" "search_word name args = None"
  shows "search_word name (f @ CHR ''('' # args @ CHR '')'' # []) = None"
proof -
  have b: "\<not> is_word_char CHR ''(''" "\<not> is_word_char CHR '')''"
    by (simp_all add: is_word_char_def)
  have "search_word name (args @ CHR '')'' # []) = None"
    by (rule search_word_append_sep_None[OF assms(1) b(2) assms(3) search_word_Nil[OF assms(1)]])
  then show ?thesis
    by (rule search_word_append_sep_None[OF assms(1) b(1) assms(2)])
qed

lemma search_word_in_brackets:
  assumes "is_identifier name" "search_word name args = None"
  shows "search_word name (CHR ''['' # args @ '']'') = None"
proof -
  have b: "\<not> is_word_char CHR ''[''" "\<not> is_word_char CHR '']''"
    by (simp_all add: is_word_char_def)
  have "search_word name (args @ CHR '']'' # []) = None"
    by (rule search_word_append_sep_None[OF assms(1) b(2) assms(2) search_word_Nil[OF assms(1)]])
  then have "search_word name ([] @ CHR ''['' # (args @ CHR '']'' # [])) = None"
    by (rule search_word_append_sep_None[OF assms(1) b(1) search_word_Nil[OF assms(1)]])
  then show ?thesis by simp
qed

lemma rewrite_minmax_call:
  assumes "is_identifier name" "no_parens args" "search_word name args = None"
  shows "rewrite_minmax name (name @ ''('' @ args @ '')'') = Inr (name @ ''(['' @ args @ ''])'')"
  using rewrite_calls_single_call[OF assms(1) search_word_Nil[OF assms(1)] _ assms(2,3)
          search_word_Nil[OF assms(1)], of "name @ ''([''" "[]"]
  by (simp add: rewrite_minmax_def)

lemma rewrite_minmax_other:
  assumes "is_identifier name" "search_word name f = None" "search_word name args = None"
  shows "rewrite_minmax name (f @ ''('' @ args @ '')'') = Inr (f @ ''('' @ args @ '')'')"
  using search_word_in_call[OF assms]
  by (simp add: rewrite_minmax_def rewrite_calls_no_match)

lemma identifier_min_max: "is_identifier ''min''" "is_identifier ''max''"
  by (simp_all add: is_identifier_def is_word_char_def)

lemma min_max_apart: "search_word ''min'' ''max'' = None" "search_word ''max'' ''min'' = None"
  by code_simp+

lemma multi_arg_rewriter_call:
  assumes "name = ''min'' \<or> name = ''max''" "no_parens args"
    "search_word ''min'' args = None" "search_word ''max'' args = None"
  shows "multi_arg_rewriter (name @ ''('' @ args @ '')'') = Inr (name @ ''(['' @ args @ ''])'')"
proof -
  have br: "no_parens (CHR ''['' # args @ '']'')"
    using assms(2) by (simp add: no_parens_def)
  from assms(1) show ?thesis
  proof
    assume n: "name = ''min''"
    have 1: "rewrite_minmax ''min'' (''min'' @ ''('' @ args @ '')'')
               = Inr (''min'' @ ''(['' @ args @ ''])'')"
      by (rule rewrite_minmax_call[OF identifier_min_max(1) assms(2,3)])
    have 2: "rewrite_minmax ''max'' (''min'' @ ''('' @ (CHR ''['' # args @ '']'') @ '')'')
               = Inr (''min'' @ ''('' @ (CHR ''['' # args @ '']'') @ '')'')"
      by (rule rewrite_minmax_other[OF identifier_min_max(2) min_max_apart(2)
            search_word_in_brackets[OF identifier_min_max(2) assms(4)]])
    show ?thesis using 1 2 n by (simp add: multi_arg_rewriter_def)
  next
    assume n: "name = ''max''"
    have 1: "rewrite_minmax ''min'' (''max'' @ ''('' @ args @ '')'')
               = Inr (''max'' @ ''('' @ args @ '')'')"
      by (rule rewrite_minmax_other[OF identifier_min_max(1) min_max_apart(1) assms(3)])
    have 2: "rewrite_minmax ''max'' (''max'' @ ''('' @ args @ '')'')
               = Inr (''max'' @ ''(['' @ args @ ''])'')"
      by (rule rewrite_minmax_call[OF identifier_min_max(2) assms(2,4)])
    show ?thesis using 1 2 n by (simp add: multi_arg_rewriter_def)
  qed
qed

text \<open>
  Claim C3, amended. The pass leaves an expression without the words \<open>min\<close> and \<open>max\<close>
  as it is, so there a second run changes nothing. On a call of \<open>min\<close> or \<open>max\<close> whose
  arguments hold no parenthesis and neither word, every run puts the arguments into one
  more pair of square brackets: the second run changes the output of the first.
\<close>

theorem multi_arg_rewriter_rerun:
  "(search_word ''min'' e = None \<and> search_word ''max'' e = None \<longrightarrow>
      multi_arg_rewriter e = Inr e) \<and>
   ((name = ''min'' \<or> name = ''max'') \<and> no_parens args \<and>
    search_word ''min'' args = None \<and> search_word ''max'' args = None \<longrightarrow>
      multi_arg_rewriter (name @ ''('' @ args @ '')'') = Inr (name @ ''(['' @ args @ ''])'') \<and>
      multi_arg_rewriter (name @ ''(['' @ args @ ''])'') = Inr (name @ ''([['' @ args @ '']])''))"
proof (intro conjI impI)
  assume "search_word ''min'' e = None \<and> search_word ''max'' e = None"
  then show "multi_arg_rewriter e = Inr e"
    by (simp add: multi_arg_rewriter_def rewrite_minmax_def rewrite_calls_no_match)
next
  assume h: "(name = ''min'' \<or> name = ''max'') \<and> no_parens args \<and>
    search_word ''min'' args = None \<and> search_word ''max'' args = None"
  then show "multi_arg_rewriter (name @ ''('' @ args @ '')'') = Inr (name @ ''(['' @ args @ ''])'')"
    by (intro multi_arg_rewriter_call) auto
next
  assume h: "(name = ''min'' \<or> name = ''max'') \<and> no_parens args \<and>
    search_word ''min'' args = None \<and> search_word ''max'' args = None"
  then have br: "no_parens (CHR ''['' # args @ '']'')" by (simp add: no_parens_def)
  have "multi_arg_rewriter (name @ ''('' @ (CHR ''['' # args @ '']'') @ '')'')
          = Inr (name @ ''(['' @ (CHR ''['' # args @ '']'') @ ''])'')"
    using h br search_word_in_brackets[OF identifier_min_max(1), of args]
      search_word_in_brackets[OF identifier_min_max(2), of args]
    by (intro multi_arg_rewriter_call) auto
  then show "multi_arg_rewriter (name @ ''(['' @ args @ ''])'') = Inr (name @ ''([['' @ args @ '']])'')"
    by simp
qed

theorem multi_arg_rewriter_rerun_witness:
  "multi_arg_rewriter ''a+b'' = Inr ''a+b'' \<and>
   multi_arg_rewriter ''max(a,b)'' = Inr ''max([a,b])'' \<and>
   multi_arg_rewriter ''max([a,b])'' = Inr ''max([[a,b]])''"
proof -
  have 1: "search_word ''min'' ''a+b'' = None \<and> search_word ''max'' ''a+b'' = None"
    by code_simp
  have 2: "(''max'' = ''min'' \<or> ''max'' = ''max'') \<and> no_parens ''a,b'' \<and>
    search_word ''min'' ''a,b'' = None \<and> search_word ''max'' ''a,b'' = None"
    by code_simp
  from multi_arg_rewriter_rerun[of "''a+b''" "''max''" "''a,b''"] 1 2
  show ?thesis by simp
qed

text \<open>
  Claim C3 as stated: the pass is not idempotent. The second run on the output of the
  first wraps the arguments of \<open>min\<close> again.
\<close>

theorem multi_arg_rewriter_not_idempotent:
  "multi_arg_rewriter ''min(a,b)'' = Inr ''min([a,b])'' \<and>
   multi_arg_rewriter ''min([a,b])'' = Inr ''min([[a,b]])''"
  by code_simp

section \<open>Expressions as trees of calls\<close>













lemma render_add_front [simp]: "render (add_front x e) = x @ render e"
  by (cases e) auto

lemma render_add_back [simp]: "render (add_back e x) = render e @ x"
  by (induction e) auto


































text \<open>
  Every expression with balanced parentheses is the text of such a tree.
\<close>

lemma balanced_before_open:
  "balanced_from 0 (u @ x) \<Longrightarrow> CHR ''('' \<notin> set u \<Longrightarrow> CHR '')'' \<notin> set u \<and> balanced_from 0 x"
  by (induction u) (auto split: if_splits)

lemma balanced_from_skip:
  "balanced_from e a \<Longrightarrow> balanced_from (e + d) (a @ x) = balanced_from d x"
proof (induction a arbitrary: e)
  case Nil
  then show ?case by simp
next
  case (Cons c a)
  show ?case
  proof (cases "c = CHR ''(''")
    case True
    with Cons.prems have "balanced_from (Suc e) a" by simp
    from Cons.IH[OF this] True show ?thesis by simp
  next
    case no: False
    show ?thesis
    proof (cases "c = CHR '')''")
      case True
      with no Cons.prems have e: "0 < e" "balanced_from (e - 1) a" by auto
      from Cons.IH[OF e(2)] e(1) True no show ?thesis by simp
    next
      case False
      with no Cons.prems have "balanced_from e a" by simp
      from Cons.IH[OF this] False no show ?thesis by simp
    qed
  qed
qed

lemma balanced_split_close:
  "balanced_from (Suc d) s \<Longrightarrow>
     \<exists>a b. s = a @ CHR '')'' # b \<and> balanced_from 0 a \<and> balanced_from d b"
proof (induction s arbitrary: d rule: length_induct)
  case (1 s)
  show ?case
  proof (cases s)
    case Nil
    with "1.prems" show ?thesis by simp
  next
    case (Cons c cs)
    show ?thesis
    proof (cases "c = CHR '')''")
      case True
      with Cons "1.prems" have "s = [] @ CHR '')'' # cs \<and> balanced_from 0 [] \<and> balanced_from d cs"
        by simp
      then show ?thesis by blast
    next
      case nc: False
      show ?thesis
      proof (cases "c = CHR ''(''")
        case True
        with Cons "1.prems" have "balanced_from (Suc (Suc d)) cs" by simp
        moreover have "length cs < length s" using Cons by simp
        ultimately obtain a1 b1 where 1: "cs = a1 @ CHR '')'' # b1" "balanced_from 0 a1"
          "balanced_from (Suc d) b1"
          using "1.IH" by blast
        have "length b1 < length s" using Cons 1(1) by simp
        with 1(3) obtain a2 b2 where 2: "b1 = a2 @ CHR '')'' # b2" "balanced_from 0 a2"
          "balanced_from d b2"
          using "1.IH" by blast
        have "balanced_from (0 + Suc 0) (a1 @ CHR '')'' # a2) = balanced_from (Suc 0) (CHR '')'' # a2)"
          by (rule balanced_from_skip[OF 1(2)])
        then have "balanced_from 0 (CHR ''('' # a1 @ CHR '')'' # a2)" using 2(2) by simp
        moreover have "s = (CHR ''('' # a1 @ CHR '')'' # a2) @ CHR '')'' # b2"
          using Cons True 1(1) 2(1) by simp
        ultimately show ?thesis using 2(3) by blast
      next
        case False
        with nc Cons "1.prems" have "balanced_from (Suc d) cs" by simp
        moreover have "length cs < length s" using Cons by simp
        ultimately obtain a1 b1 where 1: "cs = a1 @ CHR '')'' # b1" "balanced_from 0 a1"
          "balanced_from d b1"
          using "1.IH" by blast
        have "balanced_from 0 (c # a1)" using False nc 1(2) by simp
        moreover have "s = (c # a1) @ CHR '')'' # b1" using Cons 1(1) by simp
        ultimately show ?thesis using 1(3) by blast
      qed
    qed
  qed
qed

lemma text_split_word:
  "\<exists>p w. u = p @ w \<and> ends_nonword p \<and> list_all is_word_char w"
proof -
  let ?w = "rev (takeWhile is_word_char (rev u))"
  let ?p = "rev (dropWhile is_word_char (rev u))"
  have "u = ?p @ ?w"
    by (metis rev_append rev_rev_ident takeWhile_dropWhile_id)
  moreover have "list_all is_word_char ?w"
    by (auto simp: list_all_iff dest: set_takeWhileD)
  moreover have "ends_nonword ?p"
  proof (cases "dropWhile is_word_char (rev u)")
    case Nil
    then show ?thesis by (simp add: ends_nonword_def)
  next
    case (Cons c cs)
    then have "\<not> is_word_char c" by (metis hd_dropWhile list.sel(1) list.distinct(1))
    then show ?thesis using Cons by (simp add: ends_nonword_def)
  qed
  ultimately show ?thesis by blast
qed

lemma balanced_is_tree: "balanced s \<Longrightarrow> \<exists>t. texts_ok t \<and> render t = s"
proof (induction s rule: length_induct)
  case (1 s)
  show ?case
  proof (cases "CHR ''('' \<in> set s")
    case False
    with "1.prems" balanced_before_open[of s "[]"] have "no_parens s"
      by (simp add: balanced_def no_parens_def)
    then have "texts_ok (Leaf s) \<and> render (Leaf s) = s" by simp
    then show ?thesis by blast
  next
    case True
    then obtain u rest where s: "s = u @ CHR ''('' # rest" "CHR ''('' \<notin> set u"
      by (auto dest: split_list_first)
    with "1.prems" balanced_before_open[of u "CHR ''('' # rest"]
    have u: "no_parens u" and r: "balanced_from (Suc 0) rest"
      by (auto simp: balanced_def no_parens_def)
    from balanced_split_close[OF r] obtain a b where ab: "rest = a @ CHR '')'' # b"
      "balanced a" "balanced b" by (auto simp: balanced_def)
    have "length a < length s" "length b < length s" using s ab by simp_all
    with ab "1.IH" obtain ta tb where t: "texts_ok ta" "render ta = a" "texts_ok tb" "render tb = b"
      by blast
    from text_split_word[of u] obtain p w where pw: "u = p @ w" "ends_nonword p"
      "list_all is_word_char w" by blast
    have "no_parens p" using u pw(1) by (simp add: no_parens_def)
    then have "texts_ok (Node p w ta tb) \<and> render (Node p w ta tb) = s"
      using pw t s ab by simp
    then show ?thesis by blast
  qed
qed

section \<open>The registry of additive functions and the wrapped calls\<close>



lemma interpret_line_out_open: "out_open (fst (interpret_line line w)) = out_open w"
  by (auto simp: interpret_line_def Let_def split: list.splits sum.splits prod.splits)


lemma process_lines_out_open: "out_open (fst (process_lines ls w)) = out_open w"
proof (induction ls arbitrary: w)
  case Nil
  then show ?case by simp
next
  case (Cons l ls)
  show ?case
  proof (cases "interpret_line l w")
    case (Pair w1 r)
    then have "out_open w1 = out_open w" using interpret_line_out_open[of l w] by simp
    then show ?thesis using Cons.IH Pair by (cases r) auto
  qed
qed




section \<open>Model types other than add\<close>

text \<open>
  Claim C10. When the line has a colon and the text after the last colon, stripped, is
  not \<open>add\<close>, whatever else it is, \<open>interpret_line\<close> writes the function with the
  parameters and the expression of lines 56-153 as they are: no \<open>norm\<close> in front of the
  parameters and no multiplication by \<open>norm\<close>. The registry is unchanged and nothing is
  printed.
\<close>

theorem nonadditive_type_uniform:
  assumes "length (split_on CHR '':'' line) \<noteq> 1"
    and "strip (last (split_on CHR '':'' line)) \<noteq> ''add''"
  shows "interpret_line line w =
           (case split_on CHR '' '' line of
              [] \<Rightarrow> (w, Inl IndexError)
            | [a] \<Rightarrow> (w, Inl IndexError)
            | a # func_name # rest \<Rightarrow>
                (case rewrite_expr (additive_functions w) (func_expr_of line) of
                   Inl err \<Rightarrow> (w, Inl err)
                 | Inr (pars, func_expr) \<Rightarrow>
                     (w\<lparr>out_text := out_text w @ emit func_name pars (wrap_long func_expr)\<rparr>,
                      Inr ()))) \<and>
         additive_functions (fst (interpret_line line w)) = additive_functions w \<and>
         stdout (fst (interpret_line line w)) = stdout w"
proof -
  from assms have "mtype_of line \<noteq> ''add''" by (simp add: mtype_of_def)
  then show ?thesis
    by (auto simp: interpret_line_def translate_def add_norm_def Let_def
             split: list.splits sum.splits prod.splits)
qed

theorem nonadditive_type_uniform_witness:
  "interpret_line (''mdefine f a*b : con'' @ [nl]) initial_world =
     (initial_world\<lparr>out_text := emit ''f'' [''a'', ''b''] ''a*b ''\<rparr>, Inr ()) \<and>
   additive_functions (fst (interpret_line (''mdefine f a*b : con'' @ [nl]) initial_world))
     = intrinsic_additive_functions"
proof -
  have m: "length (split_on CHR '':'' (''mdefine f a*b : con'' @ [nl])) \<noteq> 1"
    "strip (last (split_on CHR '':'' (''mdefine f a*b : con'' @ [nl]))) \<noteq> ''add''"
    by code_simp+
  have s: "split_on CHR '' '' (''mdefine f a*b : con'' @ [nl]) =
             [''mdefine'', ''f'', ''a*b'', '':'', ''con'' @ [nl]]" by code_simp
  have r: "rewrite_expr (additive_functions initial_world)
             (func_expr_of (''mdefine f a*b : con'' @ [nl])) = Inr ([''a'', ''b''], ''a*b '')"
    by code_simp
  have w: "wrap_long ''a*b '' = ''a*b ''" by code_simp
  have o: "out_text initial_world = []" by (simp add: initial_world_def)
  have i: "additive_functions initial_world = intrinsic_additive_functions"
    by (simp add: initial_world_def)
  from nonadditive_type_uniform[OF m, of initial_world] i o
  show ?thesis unfolding s r by (simp add: w)
qed

section \<open>Inputs on which the converter departs from its description\<close>

text \<open>
  Claim C1. The line \<open>mdefine mypow e*a\<close>, with nothing after the \<open>a\<close>, is what the
  loop of \<open>convert_mdefine_file\<close> passes for the last line of a file that does not
  end in a line terminator. Line 99 takes the last word of every piece of
  \<open>func_expr.split('(')\<close>, the piece after the last parenthesis included, so \<open>a\<close> counts
  as a sub-function name; the wrapper finds it, finds no parenthesis after it, and line
  130 raises. The name has been registered by then and nothing has been written.
\<close>

theorem interpret_line_mypow_raises:
  "interpret_line ''mdefine mypow e*a'' initial_world =
     (initial_world\<lparr>additive_functions := intrinsic_additive_functions @ [''mypow'']\<rparr>,
      Inl AttributeError)"
  by code_simp

text \<open>
  The same line followed by a line terminator is converted as the specification says:
  the parameters are \<open>norm\<close> and \<open>a\<close>, and the returned expression differs from
  \<open>( (6.19920995*(lo+hi)/lo/hi)*a )*norm\<close> by the line terminator only.
\<close>

lemma translate_mypow_newline:
  "translate intrinsic_additive_functions (mtype_of (''mdefine mypow e*a'' @ [nl]))
       (func_expr_of (''mdefine mypow e*a'' @ [nl])) =
     Inr ([''norm'', ''a''], ''( (6.19920995*(lo+hi)/lo/hi)*a'' @ [nl] @ '' )*norm'')"
  by code_simp

lemma interpret_line_mypow_newline:
  "interpret_line (''mdefine mypow e*a'' @ [nl]) initial_world =
     (initial_world\<lparr>additive_functions := intrinsic_additive_functions @ [''mypow''],
        out_text :=
          ''define mypow_fit(lo,hi,par)'' @ [nl] @ ''{'' @ [nl] @
          ''    variable norm, a;'' @ [nl] @
          ''    norm = par[0];'' @ [nl] @
          ''    a = par[1];'' @ [nl] @ [nl] @
          ''    return ( (6.19920995*(lo+hi)/lo/hi)*a'' @ [nl] @ '' )*norm;'' @ [nl] @
          ''};'' @ [nl] @ [nl] @
          ''add_slang_function('' @ [dq] @ ''mypow'' @ [dq] @ '', ['' @ [dq] @ ''norm'' @
          [dq] @ '','' @ [dq] @ ''a'' @ [dq] @ '']);'' @ [nl] @ [nl]\<rparr>,
      Inr ())"
  by code_simp

text \<open>
  Claim C2. The catalogue holds \<open>' max'\<close>, not \<open>max\<close>, so line 113 lets \<open>max\<close> through:
  a call of \<open>max\<close>, already put in array form by the min/max pass, is rewritten to the
  indirect-evaluation form like a call of a fit function.
\<close>

theorem max_call_is_wrapped:
  "''max'' \<notin> set special_functions \<and>
   multi_arg_rewriter ''max(a,b) '' = Inr ''max([a,b]) '' \<and>
   subfunction_wrapper intrinsic_additive_functions
       (sort (remdups (sub_func_names_of ''max([a,b]) ''))) ''max([a,b]) '' =
     Inr ''eval_fun2(&max,lo,hi, [[a,b]]) ''"
  by code_simp

text \<open>
  For the names that are in the catalogue the guard of line 113 works: an expression
  whose call names are all in it passes through the wrapper unchanged.
\<close>

lemma subfunction_wrapper_special_only:
  "list_all (\<lambda>n. n \<in> set special_functions) names \<Longrightarrow>
     subfunction_wrapper additive names func_expr = Inr func_expr"
  by (induction names arbitrary: func_expr) auto

text \<open>
  Claim C4. Lines 95-96 compute the renamed text and drop it, so \<open>smin\<close> and \<open>smax\<close>
  reach the output under their own names.
\<close>

theorem smin_smax_not_renamed:
  "rewrite_expr intrinsic_additive_functions ''smin(a,b)+smax(c,d) '' =
     Inr ([''a'', ''b'', ''c'', ''d''], ''smin(a,b)+smax(c,d) '')"
  by code_simp

text \<open>
  Claim C7. The search of lines 71 and 118 is for the name between word boundaries, with
  no parenthesis in the pattern. An occurrence of \<open>min\<close> used as a variable is taken
  for a call: line 78 discards the text up to the next parenthesis, wherever it is, or
  raises when there is none.
\<close>

theorem plain_min_taken_as_call:
  "multi_arg_rewriter ''min*a+max(b,c)'' = Inr ''min([b,c])'' \<and>
   multi_arg_rewriter ''min*a'' = Inl AttributeError"
  by code_simp

text \<open>
  Claim C9. The output file is opened at line 191 and closed at line 203 only; an
  exception raised while a line is converted leaves the function with the file open.
\<close>

theorem output_left_open_on_error:
  "snd (convert_mdefine_file [''mdefine f min(a'' @ [nl]] initial_world) = Inl IndexError \<and>
   out_open (fst (convert_mdefine_file [''mdefine f min(a'' @ [nl]] initial_world))"
  by code_simp


text \<open>
  In general the file is closed exactly when no line raised.
\<close>

lemma convert_closes_iff_no_error:
  "out_open (fst (convert_mdefine_file ls w)) = (snd (convert_mdefine_file ls w) \<noteq> Inr ())"
proof (cases "process_lines ls (w\<lparr>out_open := True, out_text := file_header\<rparr>)")
  case (Pair w1 r)
  then have "out_open w1"
    using process_lines_out_open[of ls "w\<lparr>out_open := True, out_text := file_header\<rparr>"] by simp
  then show ?thesis using Pair by (cases r) (auto simp: convert_mdefine_file_def)
qed

end
